theory Spec2Isabelle
  imports Main "HOL-Library.Word" "HOL-Library.Multiset" "HOL-Library.Signed_Division"
begin

unbundle bit_operations_syntax

section \<open>Machine model\<close>

text \<open>
  The workloads are bare-metal C programs for a 32-bit RISC-V core. A C \<open>int\<close> is a
  32-bit word; \<open>+\<close>, \<open>-\<close> and \<open>*\<close> wrap around, comparisons are the signed ones
  (\<open><s\<close>, \<open>\<le>s\<close>), \<open>>>\<close> on an \<open>int\<close> is the arithmetic shift.
\<close>

type_synonym int32 = "32 word"

text \<open>
  Data memory holds one \<open>int\<close> per cell; a pointer to \<open>int\<close> is the index of a cell, so
  that \<open>arr[j]\<close> is the cell \<open>arr + sint j\<close>.
\<close>

type_synonym memory = "int \<Rightarrow> int32"

text \<open>
  The stores to the fixed addresses \<open>0x4\<close>, \<open>0x104\<close> and \<open>0x100\<close> are what the simulator
  observes. A store through a \<open>volatile int *\<close> is \<open>Volatile\<close>, a store through a plain
  \<open>int *\<close> is \<open>Plain\<close>. A \<open>main\<close> yields its stores in the order of the source text.
\<close>

datatype qualifier = Volatile | Plain

datatype store = Store (qual: qualifier) (addr: int32) (val: int32)

type_synonym trace = "store list"

definition stores_to :: "trace \<Rightarrow> int32 \<Rightarrow> int32 list" where
  "stores_to tr a = map val (filter (\<lambda>e. addr e = a) tr)"

definition final_value :: "trace \<Rightarrow> int32 \<Rightarrow> int32 option" where
  "final_value tr a = (case stores_to tr a of [] \<Rightarrow> None | v # vs \<Rightarrow> Some (last (v # vs)))"

text \<open>The positions in the trace of the stores to one address.\<close>

definition writes_at :: "trace \<Rightarrow> int32 \<Rightarrow> nat list" where
  "writes_at tr a = filter (\<lambda>i. addr (tr ! i) = a) [0..<length tr]"

text \<open>
  C keeps the volatile stores in the order of the source text, and the stores to one
  address in their order. It does not order a plain store against the stores to other
  addresses: in the sequence that reaches memory, a plain store and a neighbouring store
  to another address may have changed places. \<open>reordered p tr\<close>: the stores \<open>p\<close> of the
  source text may reach memory as \<open>tr\<close>.
\<close>

inductive reordered :: "trace \<Rightarrow> trace \<Rightarrow> bool" where
  source_order: "reordered p p"
| exchange: "reordered p (xs @ e # f # ys) \<Longrightarrow> qual e = Plain \<or> qual f = Plain \<Longrightarrow>
     addr e \<noteq> addr f \<Longrightarrow> reordered p (xs @ f # e # ys)"

code_pred reordered .

subsection \<open>Counted loops\<close>

lemma sint_succ: "(a::int32) <s b \<Longrightarrow> sint (a + 1) = sint a + 1"
proof -
  assume "a <s b"
  then have "sint a < sint b" by (simp add: word_sless_alt)
  moreover have "sint b < 2 ^ 31" using sint_lt [of b] by simp
  moreover have "- (2 ^ 31) \<le> sint a" using sint_ge [of a] by simp
  ultimately show ?thesis
    by (simp add: sint_word_ariths signed_take_bit_int_eq_self)
qed

lemma sint_pred: "(b::int32) <s a \<Longrightarrow> sint (a - 1) = sint a - 1"
proof -
  assume "b <s a"
  then have "sint b < sint a" by (simp add: word_sless_alt)
  moreover have "sint a < 2 ^ 31" using sint_lt [of a] by simp
  moreover have "- (2 ^ 31) \<le> sint b" using sint_ge [of b] by simp
  ultimately show ?thesis
    by (simp add: sint_word_ariths signed_take_bit_int_eq_self)
qed

text \<open>
  \<open>for (i = i0; i < n; i++) s = body i s\<close>, where the body changes neither \<open>i\<close> nor
  \<open>n\<close>. The loop always ends: \<open>i < n\<close> leaves room for \<open>i + 1\<close>.
\<close>

function for_lt :: "int32 \<Rightarrow> int32 \<Rightarrow> (int32 \<Rightarrow> 's \<Rightarrow> 's) \<Rightarrow> 's \<Rightarrow> 's" where
  "for_lt i n body s = (if i <s n then for_lt (i + 1) n body (body i s) else s)"
  by pat_completeness auto
termination
  by (relation "measure (\<lambda>(i, n, body, s). nat (sint n - sint i))")
     (auto simp: sint_succ word_sless_alt)

section \<open>factorial.c\<close>

text \<open>
  \<^verbatim>\<open>int mul(int a, int b) { int result = 0;
     while (b > 0) { if (b & 1) result += a; a <<= 1; b >>= 1; } return result; }\<close>
\<close>

function mul_loop :: "int32 \<Rightarrow> int32 \<Rightarrow> int32 \<Rightarrow> int32" where
  "mul_loop result a b =
     (if 0 <s b
      then mul_loop (if b AND 1 \<noteq> 0 then result + a else result)
             (push_bit 1 a) (signed_drop_bit 1 b)
      else result)"
  by pat_completeness auto
termination
  by (relation "measure (\<lambda>(result, a, b). nat (sint b))")
     (auto simp: word_sless_alt sint_signed_drop_bit_eq drop_bit_eq_div)

definition mul :: "int32 \<Rightarrow> int32 \<Rightarrow> int32" where
  "mul a b = mul_loop 0 a b"

text \<open>
  \<^verbatim>\<open>for (i = 2; i <= n; i++) result = mul(result, i);\<close>
  With \<open>n = INT_MAX\<close> the test \<open>i <= n\<close> never fails and \<open>i\<close> wraps, so the loop is a
  partial function: \<open>None\<close> stands for not returning.
\<close>

partial_function (option) factorial_loop :: "int32 \<Rightarrow> int32 \<Rightarrow> int32 \<Rightarrow> int32 option" where
  "factorial_loop result i n =
     (if i \<le>s n then factorial_loop (mul result i) (i + 1) n else Some result)"

definition factorial :: "int32 \<Rightarrow> int32 option" where
  "factorial n = factorial_loop 1 2 n"

text \<open>
  \<^verbatim>\<open>*(int *) (4) = factorial(5);\<close> is a store through a plain pointer; the two stores
  that follow it go through volatile pointers.
\<close>

definition factorial_main :: "trace option" where
  "factorial_main =
     (case factorial 5 of
        None \<Rightarrow> None
      | Some r \<Rightarrow> Some [Store Plain 4 r, Store Volatile 0x104 0x0F, Store Volatile 0x100 0xCAFEF00D])"

section \<open>fibonacci.c\<close>

function fib :: "int32 \<Rightarrow> int32" where
  "fib n = (if n \<le>s 1 then n else fib (n - 1) + fib (n - 2))"
  by pat_completeness auto
termination
proof (relation "measure (\<lambda>n. nat (sint n))")
  show "wf (measure (\<lambda>n::int32. nat (sint n)))" by simp
next
  fix n :: int32
  assume "\<not> n \<le>s 1"
  then have gt: "1 <s n" by (simp add: word_sless_alt word_sle_eq)
  then have "1 < sint n" by (simp add: word_sless_alt)
  with sint_pred [OF gt] show "(n - 1, n) \<in> measure (\<lambda>n. nat (sint n))" by simp
next
  fix n :: int32
  assume "\<not> n \<le>s 1"
  then have gt: "1 <s n" by (simp add: word_sless_alt word_sle_eq)
  then have n1: "1 < sint n" by (simp add: word_sless_alt)
  have p1: "sint (n - 1) = sint n - 1" using gt by (rule sint_pred)
  have "0 <s n - 1" using n1 p1 by (simp add: word_sless_alt)
  then have "sint (n - 1 - 1) = sint (n - 1) - 1" by (rule sint_pred)
  then have "sint (n - 2) = sint n - 2" using p1 by simp
  with n1 show "(n - 2, n) \<in> measure (\<lambda>n. nat (sint n))" by simp
qed

text \<open>\<^verbatim>\<open>*(int *) (4) = fib(20);\<close> is a store through a plain pointer as well.\<close>

definition fibonacci_main :: trace where
  "fibonacci_main = [Store Plain 4 (fib 20), Store Volatile 0x104 0x0F, Store Volatile 0x100 0xCAFEF00D]"

section \<open>bubblesort.c\<close>

definition SIZE :: int32 where "SIZE = 50"

text \<open>
  \<^verbatim>\<open>if (arr[j] > arr[j + 1]) { temp = arr[j]; arr[j] = arr[j + 1]; arr[j + 1] = temp; }\<close>
\<close>

definition compare_swap :: "int \<Rightarrow> int32 \<Rightarrow> memory \<Rightarrow> memory" where
  "compare_swap arr j m =
     (if m (arr + sint (j + 1)) <s m (arr + sint j)
      then let temp = m (arr + sint j);
               m1 = m(arr + sint j := m (arr + sint (j + 1)));
               m2 = m1(arr + sint (j + 1) := temp)
           in m2
      else m)"

definition bubblesort :: "memory \<Rightarrow> int \<Rightarrow> int32 \<Rightarrow> memory" where
  "bubblesort m arr n =
     for_lt 0 (n - 1) (\<lambda>i. for_lt 0 (n - i - 1) (compare_swap arr)) m"

text \<open>The scan of \<open>verify\<close> leaves the loop at the first descent.\<close>

function verify_loop :: "memory \<Rightarrow> int \<Rightarrow> int32 \<Rightarrow> int32 \<Rightarrow> int32" where
  "verify_loop m arr n i =
     (if i <s n - 1
      then (if m (arr + sint (i + 1)) <s m (arr + sint i) then 0
            else verify_loop m arr n (i + 1))
      else 1)"
  by pat_completeness auto
termination
  by (relation "measure (\<lambda>(m, arr, n, i). nat (sint (n - 1) - sint i))")
     (auto simp: sint_succ word_sless_alt)

definition verify :: "memory \<Rightarrow> int \<Rightarrow> int32 \<Rightarrow> int32" where
  "verify m arr n = verify_loop m arr n 0"

text \<open>
  The array \<open>data\<close> comes from \<open>bubblesort_data.h\<close>, which is not part of the sources at
  hand: its place \<open>data\<close> and its 50 initial values (the cells of \<open>m\<close> from \<open>data\<close> on) are
  parameters of \<open>main\<close>. The part of \<open>main\<close> after the sort is \<open>bubblesort_signal\<close>.
\<close>

definition bubblesort_signal :: "memory \<Rightarrow> int \<Rightarrow> trace" where
  "bubblesort_signal m data =
     (if verify m data SIZE \<noteq> 0 then [Store Volatile 0x104 0x0F] else [Store Volatile 0x104 0x01])
     @ [Store Volatile 0x100 0xCAFEF00D]"

definition bubblesort_main :: "memory \<Rightarrow> int \<Rightarrow> memory \<times> trace" where
  "bubblesort_main m data =
     (let m1 = bubblesort m data SIZE in (m1, bubblesort_signal m1 data))"

text \<open>The cells \<open>arr[0..n-1]\<close> as a list, and the order the scan of \<open>verify\<close> looks for.\<close>

definition array_at :: "memory \<Rightarrow> int \<Rightarrow> int \<Rightarrow> int32 list" where
  "array_at m arr n = map m [arr..arr + n - 1]"

definition nondecreasing :: "memory \<Rightarrow> int \<Rightarrow> int \<Rightarrow> bool" where
  "nondecreasing m arr n \<longleftrightarrow> (\<forall>i\<in>{0..<n - 1}. m (arr + i) \<le>s m (arr + i + 1))"

text \<open>A memory holding the given list from cell 0 on, and 0 elsewhere.\<close>

definition mem_of_list :: "int32 list \<Rightarrow> memory" where
  "mem_of_list xs = (\<lambda>a. if 0 \<le> a \<and> a < int (length xs) then xs ! nat a else 0)"

section \<open>pattern.c\<close>

text \<open>
  One iteration of the loop of \<open>main\<close>: \<open>state\<close> cycles 0, 1, 2; the branch
  \<open>if (state != 0)\<close> counts in \<open>result\<close>. The third component is not a variable of the
  program: it records the outcome of that branch at every iteration.
\<close>

definition pattern_body :: "int32 \<Rightarrow> int32 \<times> int32 \<times> bool list \<Rightarrow> int32 \<times> int32 \<times> bool list" where
  "pattern_body i s =
     (case s of (state, result, outcomes) \<Rightarrow>
        let state = state + 1;
            state = (if state = 3 then 0 else state);
            taken = (state \<noteq> 0);
            result = (if taken then result + 1 else result)
        in (state, result, outcomes @ [taken]))"

definition pattern_loop :: "int32 \<times> int32 \<times> bool list" where
  "pattern_loop = for_lt 0 100 pattern_body (0, 0, [])"

definition pattern_main :: trace where
  "pattern_main =
     (case pattern_loop of (state, result, outcomes) \<Rightarrow>
        [Store Volatile 4 result, Store Volatile 0x104 0x0F, Store Volatile 0x100 0xCAFEF00D])"

section \<open>aliasing.c\<close>

definition ITERATIONS :: int32 where "ITERATIONS = 100"

definition loop_a :: "int32 \<Rightarrow> int32" where
  "loop_a n = for_lt 0 n (\<lambda>i sum. sum + i) 0"

definition loop_b :: "int32 \<Rightarrow> int32" where
  "loop_b n = for_lt 0 n (\<lambda>i sum. sum + i * 2) 0"

definition loop_c :: "int32 \<Rightarrow> int32" where
  "loop_c n = for_lt 0 n (\<lambda>i sum. sum + i * 3) 0"

definition loop_d :: "int32 \<Rightarrow> int32" where
  "loop_d n = for_lt 0 n (\<lambda>i sum. sum + i * 4) 0"

definition aliasing_pattern1 :: "int32 \<Rightarrow> int32 \<Rightarrow> int32" where
  "aliasing_pattern1 i result =
     (let result = result + loop_a 10;
          result = result + loop_b 10;
          result = result + loop_c 10;
          result = result + loop_d 10
      in result)"

definition aliasing_pattern2 :: "int32 \<Rightarrow> int32 \<Rightarrow> int32" where
  "aliasing_pattern2 i result =
     (let result = result + loop_a 8;
          result = result + loop_c 8;
          result = result + loop_b 8;
          result = result + loop_d 8
      in result)"

definition aliasing_main :: trace where
  "aliasing_main =
     (let result = 0;
          result = for_lt 0 ITERATIONS aliasing_pattern1 result;
          result = for_lt 0 ITERATIONS aliasing_pattern2 result
      in [Store Volatile 4 result, Store Volatile 0x104 0x0F, Store Volatile 0x100 0xCAFEF00D])"

section \<open>complex.c\<close>

definition OUTER :: int32 where "OUTER = 50"
definition INNER :: int32 where "INNER = 20"

text \<open>C's \<open>/\<close> on \<open>int\<close> truncates towards zero.\<close>

definition sdiv32 :: "int32 \<Rightarrow> int32 \<Rightarrow> int32" where
  "sdiv32 a b = word_of_int (sint a sdiv sint b)"

definition correlated_loops :: int32 where
  "correlated_loops =
     for_lt 0 OUTER
       (\<lambda>i sum.
          let sum = for_lt 0 INNER (\<lambda>j sum. if j AND 1 \<noteq> 0 then sum + 1 else sum - 1) sum;
              sum = for_lt 0 INNER (\<lambda>k sum. if k AND 1 \<noteq> 0 then sum + 2 else sum - 2) sum
          in sum) 0"

definition sequential_branches :: "int32 \<Rightarrow> int32" where
  "sequential_branches n =
     for_lt 0 n
       (\<lambda>i sum.
          let sum = (if i AND 1 \<noteq> 0 then sum + 1 else sum);
              sum = (if i AND 2 \<noteq> 0 then sum + 2 else sum);
              sum = (if i AND 4 \<noteq> 0 then sum + 4 else sum);
              sum = (if i AND 8 \<noteq> 0 then sum + 8 else sum);
              sum = (if i AND 3 = 0 then sum + 10 else sum);
              sum = (if i AND 3 = 1 then sum + 20 else sum);
              sum = (if i AND 3 = 2 then sum + 30 else sum);
              sum = (if i AND 3 = 3 then sum + 40 else sum)
          in sum) 0"

definition func_a :: "int32 \<Rightarrow> int32" where
  "func_a n = for_lt 0 n (\<lambda>i sum. if i <s sdiv32 n 2 then sum + i else sum - i) 0"

definition func_b :: "int32 \<Rightarrow> int32" where
  "func_b n = for_lt 0 n (\<lambda>i sum. if sdiv32 n 2 \<le>s i then sum + i else sum - i) 0"

definition func_c :: "int32 \<Rightarrow> int32" where
  "func_c n = for_lt 0 n (\<lambda>i sum. if i AND 3 <s 2 then sum + i else sum - i) 0"

definition complex_main :: trace where
  "complex_main =
     (let result = 0;
          result = result + correlated_loops;
          result = for_lt 0 10 (\<lambda>i result. result + sequential_branches 32) result;
          result = for_lt 0 30
                     (\<lambda>i result.
                        let result = result + func_a 8;
                            result = result + func_b 8;
                            result = result + func_c 8
                        in result) result
      in [Store Volatile 4 result, Store Volatile 0x104 0x0F, Store Volatile 0x100 0xCAFEF00D])"

section \<open>Notions used to state the properties\<close>

text \<open>
  \<open>permuted_on S m m'\<close>: the memory \<open>m'\<close> agrees with \<open>m\<close> outside the cells \<open>S\<close> and
  holds the same values, with the same multiplicities, inside.
\<close>

definition permuted_on :: "int set \<Rightarrow> memory \<Rightarrow> memory \<Rightarrow> bool" where
  "permuted_on S m m' \<longleftrightarrow>
     (\<forall>x. x \<notin> S \<longrightarrow> m' x = m x) \<and> image_mset m' (mset_set S) = image_mset m (mset_set S)"

text \<open>
  The completion protocol on a trace: the magic word is at 0x100 and a status code (0x0F
  or 0x01) at 0x104 in the end; and a result is stored to 0x4, before every store to 0x104
  and to 0x100.
\<close>

definition signals_done :: "trace \<Rightarrow> bool" where
  "signals_done tr \<longleftrightarrow>
     final_value tr 0x100 = Some 0xCAFEF00D \<and>
     final_value tr 0x104 \<in> {Some 0x0F, Some 0x01}"

definition result_before_signals :: "trace \<Rightarrow> bool" where
  "result_before_signals tr \<longleftrightarrow>
     writes_at tr 4 \<noteq> [] \<and>
     (\<forall>k\<in>set (writes_at tr 4). \<forall>i\<in>set (writes_at tr 0x104 @ writes_at tr 0x100). k < i)"

definition completion_protocol :: "trace \<Rightarrow> bool" where
  "completion_protocol tr \<longleftrightarrow> signals_done tr \<and> result_before_signals tr"

section \<open>Evaluating the loops\<close>

declare mul_loop.simps [simp del] fib.simps [simp del] for_lt.simps [simp del]
  verify_loop.simps [simp del]

subsection \<open>The software multiply\<close>

lemma signed_drop_bit_pos: "0 <s (b::int32) \<Longrightarrow> signed_drop_bit (Suc 0) b = b div 2"
proof -
  assume "0 <s b"
  then have nb: "\<not> bit b 31"
    using bit_last_iff [of b] by (simp add: word_sless_alt)
  have "signed_drop_bit (Suc 0) b = drop_bit (Suc 0) b"
  proof (rule bit_word_eqI)
    fix n assume "n < LENGTH(32)"
    then show "bit (signed_drop_bit (Suc 0) b) n = bit (drop_bit (Suc 0) b) n"
      using nb by (auto simp: bit_signed_drop_bit_iff bit_drop_bit_eq dest: bit_imp_le_length)
  qed
  then show ?thesis by (simp add: drop_bit_eq_div)
qed

lemma mul_loop_nonneg: "0 \<le> sint b \<Longrightarrow> mul_loop result a b = result + a * b"
proof (induction result a b rule: mul_loop.induct)
  case (1 result a b)
  show ?case
  proof (cases "0 <s b")
    case True
    have sd: "signed_drop_bit (Suc 0) b = b div 2" using True by (rule signed_drop_bit_pos)
    have "0 \<le> sint (signed_drop_bit 1 b)"
      using "1.prems" by (simp add: sint_signed_drop_bit_eq drop_bit_eq_div)
    from "1.IH" [OF True this]
    have "mul_loop result a b =
        (if b AND 1 \<noteq> 0 then result + a else result) + push_bit 1 a * (b div 2)"
      using True by (subst mul_loop.simps) (simp add: sd)
    also have "\<dots> = result + a * (2 * (b div 2) + b mod 2)"
      by (simp add: and_one_eq push_bit_eq_mult algebra_simps mod_2_eq_odd)
    also have "2 * (b div 2) + b mod 2 = b" by (rule mult_div_mod_eq)
    finally show ?thesis .
  next
    case False
    with "1.prems" have "sint b = 0" by (simp add: word_sless_alt)
    then have "b = 0" by (intro signed_word_eqI) simp
    then show ?thesis by (subst mul_loop.simps) simp
  qed
qed

lemma mul_loop_neg: "b <s 0 \<Longrightarrow> mul_loop result a b = result"
  by (subst mul_loop.simps) (simp add: word_sless_alt)

lemma factorial_5: "factorial 5 = Some 120"
  by (simp add: factorial_def factorial_loop.simps mul_def mul_loop_nonneg word_sle_eq)

subsection \<open>Fibonacci\<close>

lemma fib_rec: "1 <s n \<Longrightarrow> fib n = fib (n - 1) + fib (n - 2)"
  by (subst fib.simps) (simp add: word_sle_eq word_sless_alt)

lemma fib_0: "fib 0 = 0"
  by (subst fib.simps) (simp add: word_sle_eq)

lemma fib_1: "fib 1 = 1"
  by (subst fib.simps) (simp add: word_sle_eq)

lemma fib_20: "fib 20 = 6765"
proof -
  note r = fib_rec word_sless_alt
  have f2: "fib 2 = 1" by (simp add: r fib_0 fib_1)
  have f3: "fib 3 = 2" by (simp add: r f2 fib_1)
  have f4: "fib 4 = 3" by (simp add: r f2 f3)
  have f5: "fib 5 = 5" by (simp add: r f3 f4)
  have f6: "fib 6 = 8" by (simp add: r f4 f5)
  have f7: "fib 7 = 13" by (simp add: r f5 f6)
  have f8: "fib 8 = 21" by (simp add: r f6 f7)
  have f9: "fib 9 = 34" by (simp add: r f7 f8)
  have f10: "fib 10 = 55" by (simp add: r f8 f9)
  have f11: "fib 11 = 89" by (simp add: r f9 f10)
  have f12: "fib 12 = 144" by (simp add: r f10 f11)
  have f13: "fib 13 = 233" by (simp add: r f11 f12)
  have f14: "fib 14 = 377" by (simp add: r f12 f13)
  have f15: "fib 15 = 610" by (simp add: r f13 f14)
  have f16: "fib 16 = 987" by (simp add: r f14 f15)
  have f17: "fib 17 = 1597" by (simp add: r f15 f16)
  have f18: "fib 18 = 2584" by (simp add: r f16 f17)
  have f19: "fib 19 = 4181" by (simp add: r f17 f18)
  show ?thesis by (simp add: r f18 f19)
qed

subsection \<open>The four loops of aliasing.c\<close>

lemma loop_a_10: "loop_a 10 = 45"
  by (simp add: loop_a_def for_lt.simps word_sless_alt)

lemma loop_b_10: "loop_b 10 = 90"
  by (simp add: loop_b_def for_lt.simps word_sless_alt)

lemma loop_c_10: "loop_c 10 = 135"
  by (simp add: loop_c_def for_lt.simps word_sless_alt)

lemma loop_d_10: "loop_d 10 = 180"
  by (simp add: loop_d_def for_lt.simps word_sless_alt)

lemma loop_a_8: "loop_a 8 = 28"
  by (simp add: loop_a_def for_lt.simps word_sless_alt)

lemma loop_b_8: "loop_b 8 = 56"
  by (simp add: loop_b_def for_lt.simps word_sless_alt)

lemma loop_c_8: "loop_c 8 = 84"
  by (simp add: loop_c_def for_lt.simps word_sless_alt)

lemma loop_d_8: "loop_d 8 = 112"
  by (simp add: loop_d_def for_lt.simps word_sless_alt)

lemma aliasing_main_trace: "aliasing_main = [Store Volatile 4 73000, Store Volatile 0x104 0x0F, Store Volatile 0x100 0xCAFEF00D]"
  by (simp add: aliasing_main_def ITERATIONS_def aliasing_pattern1_def aliasing_pattern2_def
      loop_a_10 loop_b_10 loop_c_10 loop_d_10 loop_a_8 loop_b_8 loop_c_8 loop_d_8
      for_lt.simps word_sless_alt)

subsection \<open>The loop of pattern.c\<close>

lemma pattern_loop_value: "pattern_loop = (1, 67, map (\<lambda>i. i mod 3 \<noteq> 2) [0..<100])"
  by (simp add: pattern_loop_def pattern_body_def for_lt.simps word_sless_alt upt_rec)

section \<open>Correctness of the sort\<close>

lemma sint_diff: 
  "- (2 ^ 31) \<le> sint (a::int32) - sint b \<Longrightarrow> sint a - sint b < 2 ^ 31 \<Longrightarrow> sint (a - b) = sint a - sint b"
  by (simp add: sint_word_ariths signed_take_bit_int_eq_self)

lemma for_lt_rule:
  assumes "sint i \<le> sint n" and "I (sint i) s"
    and "\<And>j t. sint i \<le> sint j \<Longrightarrow> sint j < sint n \<Longrightarrow> I (sint j) t \<Longrightarrow> I (sint j + 1) (body j t)"
  shows "I (sint n) (for_lt i n body s)"
  using assms
proof (induction i n body s rule: for_lt.induct)
  case (1 i n body s)
  show ?case
  proof (cases "i <s n")
    case True
    then have lt: "sint i < sint n" by (simp add: word_sless_alt)
    have suc: "sint (i + 1) = sint i + 1" using True by (rule sint_succ)
    have "I (sint n) (for_lt (i + 1) n body (body i s))"
    proof (rule "1.IH" [OF True])
      show "sint (i + 1) \<le> sint n" using lt suc by simp
      show "I (sint (i + 1)) (body i s)"
        using "1.prems"(3) [of i s] "1.prems"(2) lt suc by simp
      fix j :: int32 and t
      assume "sint (i + 1) \<le> sint j" "sint j < sint n" "I (sint j) t"
      then show "I (sint j + 1) (body j t)" using "1.prems"(3) [of j t] suc by simp
    qed
    then show ?thesis using True by (subst for_lt.simps) simp
  next
    case False
    then have "sint i = sint n" using "1.prems"(1) by (simp add: word_sless_alt)
    then show ?thesis using False "1.prems"(2) by (subst for_lt.simps) simp
  qed
qed

lemma for_lt_skip: "\<not> i <s n \<Longrightarrow> for_lt i n body s = s"
  by (subst for_lt.simps) simp

lemma permuted_on_refl: "permuted_on S m m"
  by (simp add: permuted_on_def)

lemma permuted_on_trans:
  "permuted_on S m1 m2 \<Longrightarrow> permuted_on S m2 m3 \<Longrightarrow> permuted_on S m1 m3"
  by (simp add: permuted_on_def)

lemma permuted_on_mono:
  assumes "permuted_on S m m'" and "S \<subseteq> T" and "finite T"
  shows "permuted_on T m m'"
proof -
  have fin: "finite S" "finite (T - S)" using assms(2,3) by (auto intro: finite_subset)
  have T: "T = S \<union> (T - S)" using assms(2) by auto
  have split: "mset_set T = mset_set S + mset_set (T - S)"
    by (subst T) (rule mset_set_Union [OF fin], auto)
  have rest: "image_mset m' (mset_set (T - S)) = image_mset m (mset_set (T - S))"
    using assms(1) fin by (intro image_mset_cong) (simp add: permuted_on_def)
  show ?thesis
    using assms(1,2) rest by (auto simp: permuted_on_def split)
qed

lemma permuted_on_swap:
  assumes "a \<in> S" "b \<in> S" "a \<noteq> b" "finite S"
  shows "permuted_on S m (m(a := m b, b := m a))"
proof -
  have "permuted_on {a, b} m (m(a := m b, b := m a))"
    using assms(3) by (simp add: permuted_on_def)
  then show ?thesis
    by (rule permuted_on_mono) (use assms in auto)
qed

lemma permuted_on_value:
  assumes "permuted_on S m m'" "finite S" "x \<in> S"
  shows "\<exists>y\<in>S. m' x = m y"
proof -
  have "set_mset (image_mset m' (mset_set S)) = set_mset (image_mset m (mset_set S))"
    using assms(1) by (simp add: permuted_on_def)
  then have "m' ` S = m ` S" using assms(2) by simp
  then show ?thesis using assms(3) by blast
qed

lemma permuted_on_outside: "permuted_on S m m' \<Longrightarrow> x \<notin> S \<Longrightarrow> m' x = m x"
  by (simp add: permuted_on_def)


lemma compare_swap_permuted:
  assumes "arr + sint j \<in> S" "arr + sint (j + 1) \<in> S" "sint (j + 1) = sint j + 1" "finite S"
  shows "permuted_on S m (compare_swap arr j m)"
proof (cases "m (arr + sint (j + 1)) <s m (arr + sint j)")
  case True
  have "permuted_on S m (m(arr + sint j := m (arr + sint (j + 1)), arr + sint (j + 1) := m (arr + sint j)))"
    using assms by (intro permuted_on_swap) auto
  then show ?thesis using True by (simp add: compare_swap_def)
next
  case False
  then show ?thesis by (simp add: compare_swap_def permuted_on_refl)
qed

lemma compare_swap_other:
  "x \<noteq> arr + sint j \<Longrightarrow> x \<noteq> arr + sint (j + 1) \<Longrightarrow> compare_swap arr j m x = m x"
  by (simp add: compare_swap_def)

lemma compare_swap_upper:
  assumes "sint (j + 1) = sint j + 1"
  shows "m (arr + sint j) \<le>s compare_swap arr j m (arr + sint j + 1)"
    and "m (arr + sint j + 1) \<le>s compare_swap arr j m (arr + sint j + 1)"
    and "compare_swap arr j m (arr + sint j) \<le>s compare_swap arr j m (arr + sint j + 1)"
  using assms by (auto simp: compare_swap_def word_sle_eq word_sless_alt add.assoc)

text \<open>One pass of the inner loop up to the bound \<open>b\<close>.\<close>

lemma inner_pass:
  assumes "0 \<le> sint b"
  shows "permuted_on {arr..arr + sint b} m (for_lt 0 b (compare_swap arr) m) \<and>
         (\<forall>k. 0 \<le> k \<and> k \<le> sint b \<longrightarrow>
              for_lt 0 b (compare_swap arr) m (arr + k) \<le>s
              for_lt 0 b (compare_swap arr) m (arr + sint b))"
proof -
  let ?S = "{arr..arr + sint b}"
  let ?I = "\<lambda>J t. permuted_on ?S m t \<and> (\<forall>k. 0 \<le> k \<and> k \<le> J \<longrightarrow> t (arr + k) \<le>s t (arr + J))"
  have "?I (sint b) (for_lt 0 b (compare_swap arr) m)"
  proof (rule for_lt_rule [where I = ?I])
    show "sint (0::int32) \<le> sint b" using assms by simp
    show "?I (sint (0::int32)) m" by (auto simp: permuted_on_refl word_sle_eq)
  next
    fix j :: int32 and t
    assume j0: "sint (0::int32) \<le> sint j" and jb: "sint j < sint b" and inv: "?I (sint j) t"
    from jb have suc: "sint (j + 1) = sint j + 1"
      by (intro sint_succ [of j b]) (simp add: word_sless_alt)
    let ?t = "compare_swap arr j t"
    have "permuted_on ?S t ?t"
      using j0 jb suc by (intro compare_swap_permuted) auto
    with inv have p: "permuted_on ?S m ?t" by (blast intro: permuted_on_trans)
    have "?t (arr + k) \<le>s ?t (arr + (sint j + 1))" if k: "0 \<le> k" "k \<le> sint j + 1" for k
    proof -
      consider "k < sint j" | "k = sint j" | "k = sint j + 1" using k by linarith
      then show ?thesis
      proof cases
        case 1
        then have "?t (arr + k) = t (arr + k)"
          using suc by (intro compare_swap_other) auto
        moreover have "t (arr + k) \<le>s t (arr + sint j)" using inv k 1 by simp
        moreover have "t (arr + sint j) \<le>s ?t (arr + sint j + 1)"
          using suc by (rule compare_swap_upper)
        ultimately show ?thesis by (simp add: word_sle_eq add.assoc)
      next
        case 2
        then show ?thesis using compare_swap_upper(3) [OF suc, of arr t] by (simp add: add.assoc)
      next
        case 3
        then show ?thesis by (simp add: word_sle_eq)
      qed
    qed
    with p show "?I (sint j + 1) ?t" by simp
  qed
  then show ?thesis by simp
qed


lemma bubblesort_sorts:
  assumes "0 \<le> sint n"
  shows "permuted_on {arr..arr + sint n - 1} m (bubblesort m arr n) \<and>
         (\<forall>k l. 0 \<le> k \<and> k \<le> l \<and> l < sint n \<longrightarrow>
              bubblesort m arr n (arr + k) \<le>s bubblesort m arr n (arr + l))"
proof -
  let ?N = "sint n"
  let ?S = "{arr..arr + ?N - 1}"
  let ?body = "\<lambda>i. for_lt 0 (n - i - 1) (compare_swap arr)"
  let ?I = "\<lambda>I t. permuted_on ?S m t \<and>
      (\<forall>k l. 0 \<le> k \<and> k \<le> l \<and> ?N - I \<le> l \<and> l < ?N \<longrightarrow> t (arr + k) \<le>s t (arr + l))"
  have n1: "sint (n - 1) = ?N - 1"
    using assms sint_lt [of n] by (intro sint_diff [of n 1, simplified]) auto
  show ?thesis
  proof (cases "?N = 0")
    case True
    then have "\<not> 0 <s n - 1" using n1 by (simp add: word_sless_alt)
    then have "bubblesort m arr n = m" by (simp add: bubblesort_def for_lt_skip)
    then show ?thesis using True by (auto simp: permuted_on_refl)
  next
    case False
    with assms have pos: "1 \<le> ?N" by simp
    have "?I (sint (n - 1)) (for_lt 0 (n - 1) ?body m)"
    proof (rule for_lt_rule [where I = ?I])
      show "sint (0::int32) \<le> sint (n - 1)" using n1 pos by simp
      show "?I (sint (0::int32)) m" by (auto simp: permuted_on_refl)
    next
      fix i :: int32 and t
      assume i0: "sint (0::int32) \<le> sint i" and iN: "sint i < sint (n - 1)"
        and inv: "?I (sint i) t"
      let ?b = "n - i - 1"
      let ?t = "for_lt 0 ?b (compare_swap arr) t"
      have "sint (n - i) = ?N - sint i"
        using i0 iN n1 sint_lt [of n] by (intro sint_diff) auto
      moreover have "sint (n - i - 1) = sint (n - i) - 1"
        using i0 iN n1 sint_lt [of n] calculation by (intro sint_diff [of "n - i" 1, simplified]) auto
      ultimately have b: "sint ?b = ?N - sint i - 1" by simp
      have b0: "0 \<le> sint ?b" using b iN n1 by simp
      note pass = inner_pass [OF b0, of arr t]
      from pass have pb: "permuted_on {arr..arr + sint ?b} t ?t" by simp
      from pass have top: "?t (arr + k) \<le>s ?t (arr + sint ?b)" if "0 \<le> k" "k \<le> sint ?b" for k
        using that by simp
      have "permuted_on ?S t ?t"
        using pb by (rule permuted_on_mono) (use b i0 in auto)
      with inv have p: "permuted_on ?S m ?t" by (blast intro: permuted_on_trans)
      from inv have ord: "t (arr + k) \<le>s t (arr + l)"
        if "0 \<le> k" "k \<le> l" "?N - sint i \<le> l" "l < ?N" for k l
        using that by blast
      have "?t (arr + k) \<le>s ?t (arr + l)"
        if kl: "0 \<le> k" "k \<le> l" "?N - (sint i + 1) \<le> l" "l < ?N" for k l
      proof (cases "l = sint ?b")
        case True
        then show ?thesis using top [of k] kl by simp
      next
        case False
        with kl b have lb: "sint ?b < l" by simp
        then have tl: "?t (arr + l) = t (arr + l)"
          using pb by (intro permuted_on_outside [OF pb]) simp
        show ?thesis
        proof (cases "k \<le> sint ?b")
          case True
          then have "arr + k \<in> {arr..arr + sint ?b}" using kl by simp
          with pb obtain y where y: "y \<in> {arr..arr + sint ?b}" "?t (arr + k) = t y"
            using permuted_on_value [of "{arr..arr + sint ?b}" t ?t "arr + k"] by auto
          from y(1) lb have "0 \<le> y - arr" "y - arr \<le> l" by auto
          then have "t (arr + (y - arr)) \<le>s t (arr + l)"
            using kl lb b by (intro ord) simp_all
          then show ?thesis using y(2) tl by simp
        next
          case False
          then have "?t (arr + k) = t (arr + k)"
            using pb by (intro permuted_on_outside [OF pb]) simp
          moreover have "t (arr + k) \<le>s t (arr + l)"
            using kl lb b by (intro ord) simp_all
          ultimately show ?thesis using tl by simp
        qed
      qed
      with p show "?I (sint i + 1) (?body i t)" by simp
    qed
    then have fin: "?I (?N - 1) (bubblesort m arr n)" by (simp add: bubblesort_def n1)
    have "bubblesort m arr n (arr + k) \<le>s bubblesort m arr n (arr + l)"
      if kl: "0 \<le> k" "k \<le> l" "l < ?N" for k l
    proof (cases "l = 0")
      case True
      with kl have "k = l" by simp
      then show ?thesis by (simp add: word_sle_eq)
    next
      case False
      with kl fin show ?thesis by simp
    qed
    with fin show ?thesis by simp
  qed
qed

lemma verify_loop_scan:
  "verify_loop m arr n i =
     (if \<forall>k\<in>{sint i..<sint (n - 1)}. m (arr + k) \<le>s m (arr + k + 1) then 1 else 0)"
proof (induction m arr n i rule: verify_loop.induct)
  case (1 m arr n i)
  show ?case
  proof (cases "i <s n - 1")
    case True
    then have lt: "sint i < sint (n - 1)" by (simp add: word_sless_alt)
    have suc: "sint (i + 1) = sint i + 1" using True by (rule sint_succ)
    have range: "{sint i..<sint (n - 1)} = insert (sint i) {sint i + 1..<sint (n - 1)}"
      using lt by auto
    show ?thesis
    proof (cases "m (arr + sint (i + 1)) <s m (arr + sint i)")
      case desc: True
      then have "\<not> m (arr + sint i) \<le>s m (arr + sint i + 1)"
        using suc by (simp add: word_sle_eq word_sless_alt add.assoc)
      then have "\<not> (\<forall>k\<in>{sint i..<sint (n - 1)}. m (arr + k) \<le>s m (arr + k + 1))"
        using lt by auto
      then show ?thesis using True desc by (subst verify_loop.simps) simp
    next
      case asc: False
      then have here: "m (arr + sint i) \<le>s m (arr + sint i + 1)"
        using suc by (simp add: word_sle_eq word_sless_alt add.assoc)
      have "verify_loop m arr n i = verify_loop m arr n (i + 1)"
        using True asc by (subst verify_loop.simps) simp
      also note "1.IH" [OF True asc]
      finally show ?thesis using here by (simp add: suc range)
    qed
  next
    case False
    then have "{sint i..<sint (n - 1)} = {}" by (simp add: word_sless_alt)
    then show ?thesis using False by (subst verify_loop.simps) simp
  qed
qed

lemma verify_nondecreasing:
  "sint (n - 1) = sint n - 1 \<Longrightarrow>
   verify m arr n = (if nondecreasing m arr (sint n) then 1 else 0)"
  by (simp add: verify_def verify_loop_scan nondecreasing_def)

lemma bubblesort_nondecreasing:
  assumes "0 \<le> sint n"
  shows "nondecreasing (bubblesort m arr n) arr (sint n)"
  unfolding nondecreasing_def
proof
  fix i assume "i \<in> {0..<sint n - 1}"
  then have "0 \<le> i \<and> i \<le> i + 1 \<and> i + 1 < sint n" by simp
  with bubblesort_sorts [OF assms, of arr m]
  have "bubblesort m arr n (arr + i) \<le>s bubblesort m arr n (arr + (i + 1))" by blast
  then show "bubblesort m arr n (arr + i) \<le>s bubblesort m arr n (arr + i + 1)"
    by (simp add: add.assoc)
qed

lemma bubblesort_signal_status:
  "bubblesort_signal m data =
     [Store Volatile 0x104 (if nondecreasing m data 50 then 0x0F else 0x01), Store Volatile 0x100 0xCAFEF00D]"
  by (simp add: bubblesort_signal_def SIZE_def verify_nondecreasing)

lemma bubblesort_main_trace:
  "snd (bubblesort_main m data) = [Store Volatile 0x104 0x0F, Store Volatile 0x100 0xCAFEF00D]"
  using bubblesort_nondecreasing [of 50 m data]
  by (simp add: bubblesort_main_def bubblesort_signal_status SIZE_def Let_def)

section \<open>Results of the workloads\<close>

text \<open>
  C4. The factorial workload stores exactly 120 to address 0x4: \<open>factorial(5)\<close> returns,
  with the value 120 obtained through the shift-and-add multiply, and this is the value of
  the one store to 0x4.
\<close>

theorem factorial_stores_120:
  "factorial 5 = Some 120 \<and>
   map_option (\<lambda>tr. stores_to tr 4) factorial_main = Some [120]"
  by (simp add: factorial_main_def factorial_5 stores_to_def)

text \<open>
  C5. The Fibonacci workload stores exactly 6765 to address 0x4: it is \<open>fib(20)\<close> for
  the recursion with \<open>fib(0) = 0\<close> and \<open>fib(1) = 1\<close>.
\<close>

theorem fibonacci_stores_6765:
  "fib 0 = 0 \<and> fib 1 = 1 \<and> fib 20 = 6765 \<and> stores_to fibonacci_main 4 = [6765]"
  by (simp add: fib_0 fib_1 fib_20 fibonacci_main_def stores_to_def)

text \<open>
  C2. The pattern generator does not store 34 to address 0x4: the branch is taken in 67 of
  the 100 iterations, and 67 is the value stored.
\<close>

theorem pattern_stores_67: "stores_to pattern_main 4 = [67]"
  by (simp add: pattern_main_def pattern_loop_value stores_to_def)

text \<open>
  C6. Over the iterations \<open>i = 0..99\<close> of the pattern generator, the outcomes of the
  branch \<open>if (state != 0)\<close> are Taken, Taken, Not-Taken repeated: the condition is false
  exactly when \<open>i mod 3 = 2\<close>.
\<close>

theorem pattern_branch_outcomes:
  "snd (snd pattern_loop) = map (\<lambda>i. i mod 3 \<noteq> 2) [0..<100]"
  by (simp add: pattern_loop_value)

text \<open>
  C7. The aliasing workload stores to address 0x4 the value given by the loop bounds and
  the multipliers alone: 100 times the sum of \<open>i + 2i + 3i + 4i\<close> over \<open>i < 10\<close>, plus
  100 times the same sum over \<open>i < 8\<close>, which is \<open>100 * 450 + 100 * 280 = 73000\<close>.
\<close>

theorem aliasing_stores_closed_form:
  "stores_to aliasing_main 4 =
     [word_of_nat (100 * (\<Sum>i<10. i + 2 * i + 3 * i + 4 * i) +
                   100 * (\<Sum>i<8. i + 2 * i + 3 * i + 4 * i))] \<and>
   (\<Sum>i<10. i + 2 * i + 3 * i + 4 * i) = (450::nat) \<and>
   (\<Sum>i<8. i + 2 * i + 3 * i + 4 * i) = (280::nat) \<and>
   stores_to aliasing_main 4 = [73000]"
proof -
  have s10: "(\<Sum>i<10. i + 2 * i + 3 * i + 4 * i) = (450::nat)"
    by (simp add: eval_nat_numeral)
  have s8: "(\<Sum>i<8. i + 2 * i + 3 * i + 4 * i) = (280::nat)"
    by (simp add: eval_nat_numeral)
  have st: "stores_to aliasing_main 4 = [73000]"
    by (simp add: aliasing_main_trace stores_to_def)
  show ?thesis
    unfolding s10 s8 st by simp
qed

section \<open>The multiply and the sort as functions\<close>

lemma mul_nonneg: "0 \<le> sint b \<Longrightarrow> mul a b = a * b"
  by (simp add: mul_def mul_loop_nonneg)

lemma factorial_loop_prod:
  assumes "2 \<le> sint i" "sint n < 2 ^ 31 - 1"
  shows "factorial_loop result i n =
         Some (result * (\<Prod>k = nat (sint i)..nat (sint n). of_nat k))"
  using assms
proof (induction "nat (sint n + 1 - sint i)" arbitrary: result i rule: less_induct)
  case less
  show ?case
  proof (cases "i \<le>s n")
    case True
    then have le: "sint i \<le> sint n" by (simp add: word_sle_eq)
    have "i <s 0x7FFFFFFF" using le less.prems(2) by (simp add: word_sless_alt)
    then have suc: "sint (i + 1) = sint i + 1" by (rule sint_succ)
    have i: "of_nat (nat (sint i)) = i" using less.prems(1) by simp
    have "factorial_loop result i n = factorial_loop (result * i) (i + 1) n"
      using True less.prems(1) by (subst factorial_loop.simps) (simp add: mul_nonneg)
    also have "\<dots> = Some (result * i * (\<Prod>k = nat (sint (i + 1))..nat (sint n). of_nat k))"
      using le less.prems suc by (intro less.hyps) auto
    also have "nat (sint (i + 1)) = Suc (nat (sint i))" using suc less.prems(1) by simp
    also have "result * i * (\<Prod>k = Suc (nat (sint i))..nat (sint n). of_nat k) =
               result * (\<Prod>k = nat (sint i)..nat (sint n). of_nat k)"
      using le less.prems(1) i by (simp add: prod.atLeast_Suc_atMost mult.assoc)
    finally show ?thesis .
  next
    case False
    then have "nat (sint n) < nat (sint i)" using less.prems(1) by (simp add: word_sle_eq)
    then show ?thesis using False by (subst factorial_loop.simps) simp
  qed
qed

lemma factorial_prod:
  assumes "sint n < 2 ^ 31 - 1"
  shows "factorial n = Some (\<Prod>k = 2..nat (sint n). of_nat k)"
  using factorial_loop_prod [of 2 n 1] assms by (simp add: factorial_def)

text \<open>
  C10. The software multiply is a total function (its loop ends for every \<open>a\<close> and
  \<open>b\<close>, since \<open>b\<close> halves while it is positive). It returns \<open>a * b\<close> modulo
  \<open>2^32\<close> for every \<open>b \<ge> 0\<close> and 0 for every \<open>b < 0\<close>. The multipliers that
  \<open>factorial\<close> passes are \<open>2..n\<close>, all non-negative, so that for every \<open>n\<close> below
  \<open>INT_MAX\<close> it returns the product of \<open>2..n\<close> modulo \<open>2^32\<close>.
\<close>

theorem mul_spec:
  "(0 \<le>s b \<longrightarrow> mul a b = a * b) \<and> (b <s 0 \<longrightarrow> mul a b = 0) \<and>
   (n <s 0x7FFFFFFF \<longrightarrow> factorial n = Some (\<Prod>k = 2..nat (sint n). of_nat k))"
  by (simp add: mul_def mul_loop_nonneg mul_loop_neg word_sle_eq word_sless_alt factorial_prod)

theorem mul_spec_witness:
  "(0::int32) \<le>s 6 \<and> mul 7 6 = 42 \<and> (- 3 :: int32) <s 0 \<and> mul 7 (- 3) = 0 \<and>
   (5::int32) <s 0x7FFFFFFF \<and> factorial 5 = Some 120"
  using mul_spec [of 6 7 5] mul_spec [of "- 3" 7 5]
  by (simp add: word_sle_eq word_sless_alt eval_nat_numeral)

lemma array_at_mset: "mset (array_at m arr n) = image_mset m (mset_set {arr..arr + n - 1})"
proof -
  have "mset_set (set [arr..arr + n - 1]) = mset [arr..arr + n - 1]"
    by (rule mset_set_set) simp
  then show ?thesis by (simp add: array_at_def)
qed

text \<open>
  C9. \<open>bubblesort(arr, n)\<close> works in place: for an array of length \<open>n \<ge> 0\<close>, the
  multiset of the values in \<open>arr[0..n-1]\<close> is the same before and after, and every cell
  outside \<open>arr[0..n-1]\<close> keeps its value.
\<close>

theorem bubblesort_permutes_in_place:
  assumes "0 \<le>s n"
  shows "mset (array_at (bubblesort m arr n) arr (sint n)) = mset (array_at m arr (sint n)) \<and>
         (\<forall>a. a < arr \<or> arr + sint n \<le> a \<longrightarrow> bubblesort m arr n a = m a)"
proof -
  from assms have "0 \<le> sint n" by (simp add: word_sle_eq)
  then have p: "permuted_on {arr..arr + sint n - 1} m (bubblesort m arr n)"
    using bubblesort_sorts [of n arr m] by simp
  then have "image_mset (bubblesort m arr n) (mset_set {arr..arr + sint n - 1}) =
             image_mset m (mset_set {arr..arr + sint n - 1})"
    by (simp add: permuted_on_def)
  moreover have "bubblesort m arr n a = m a" if "a < arr \<or> arr + sint n \<le> a" for a
    using p that by (intro permuted_on_outside [OF p]) auto
  ultimately show ?thesis by (simp add: array_at_mset)
qed

lemma bubblesort_example:
  "array_at (bubblesort (mem_of_list [3, 1, 2, 1]) 0 4) 0 4 = [1, 1, 2, 3]"
  by (simp add: array_at_def bubblesort_def compare_swap_def mem_of_list_def for_lt.simps
      word_sless_alt upto.simps)

theorem bubblesort_permutes_in_place_witness:
  "(0::int32) \<le>s 4 \<and>
   mset (array_at (bubblesort (mem_of_list [3, 1, 2, 1]) 0 4) 0 4) =
   mset (array_at (mem_of_list [3, 1, 2, 1]) 0 4) \<and>
   bubblesort (mem_of_list [3, 1, 2, 1]) 0 4 4 = mem_of_list [3, 1, 2, 1] 4 \<and>
   bubblesort (mem_of_list [3, 1, 2, 1]) 0 4 (- 1) = mem_of_list [3, 1, 2, 1] (- 1)"
proof -
  have h: "(0::int32) \<le>s 4" by (simp add: word_sle_eq)
  show ?thesis
    using h bubblesort_permutes_in_place [OF h, of "mem_of_list [3, 1, 2, 1]" 0] by simp
qed

section \<open>The completion protocol\<close>

lemma writes_at_3:
  "writes_at [Store q0 a0 v0, Store q1 a1 v1, Store q2 a2 v2] a =
     (if a0 = a then [0] else []) @ (if a1 = a then [1] else []) @ (if a2 = a then [2] else [])"
  by (simp add: writes_at_def upt_rec)

lemma writes_at_2:
  "writes_at [Store q0 a0 v0, Store q1 a1 v1] a = (if a0 = a then [0] else []) @ (if a1 = a then [1] else [])"
  by (simp add: writes_at_def upt_rec)

lemma completion_protocol_3:
  "s = 0x0F \<or> s = 0x01 \<Longrightarrow> completion_protocol [Store q 4 r, Store Volatile 0x104 s, Store Volatile 0x100 0xCAFEF00D]"
  by (auto simp: completion_protocol_def signals_done_def result_before_signals_def
      final_value_def stores_to_def writes_at_3)

lemma factorial_main_trace:
  "factorial_main = Some [Store Plain 4 120, Store Volatile 0x104 0x0F, Store Volatile 0x100 0xCAFEF00D]"
  by (simp add: factorial_main_def factorial_5)

lemma pattern_main_trace: "pattern_main = [Store Volatile 4 67, Store Volatile 0x104 0x0F, Store Volatile 0x100 0xCAFEF00D]"
  by (simp add: pattern_main_def pattern_loop_value)

lemma complex_main_trace:
  "\<exists>r. complex_main = [Store Volatile 4 r, Store Volatile 0x104 0x0F, Store Volatile 0x100 0xCAFEF00D]"
  by (simp add: complex_main_def Let_def)

text \<open>
  C1. In the sorting workload, whatever the 50 initial values of \<open>data\<close>, the array is
  non-decreasing after \<open>bubblesort\<close> (\<open>arr[i] \<le> arr[i+1]\<close> for every \<open>i\<close> in
  \<open>0..48\<close>) and the status stored to 0x104 is 0x0F. The status that the end of \<open>main\<close>
  stores is 0x0F if and only if the array it scans is non-decreasing, and 0x01 otherwise.
\<close>

theorem sorting_workload_sorted_status:
  "nondecreasing (fst (bubblesort_main m data)) data 50 \<and>
   (\<forall>i\<in>{0..48}. fst (bubblesort_main m data) (data + i) \<le>s
                 fst (bubblesort_main m data) (data + i + 1)) \<and>
   stores_to (snd (bubblesort_main m data)) 0x104 = [0x0F] \<and>
   stores_to (bubblesort_signal m' data) 0x104 =
     [if nondecreasing m' data 50 then 0x0F else 0x01]"
proof -
  have s: "nondecreasing (fst (bubblesort_main m data)) data 50"
    using bubblesort_nondecreasing [of 50 m data]
    by (simp add: bubblesort_main_def SIZE_def Let_def)
  then have "\<forall>i\<in>{0..48}. fst (bubblesort_main m data) (data + i) \<le>s
                 fst (bubblesort_main m data) (data + i + 1)"
    by (simp add: nondecreasing_def)
  with s show ?thesis
    by (simp add: bubblesort_main_trace bubblesort_signal_status stores_to_def)
qed

lemma descent_not_nondecreasing: "\<not> nondecreasing (mem_of_list [2, 1]) 0 50"
proof -
  have "\<not> mem_of_list [2, 1] (0 + 0) \<le>s mem_of_list [2, 1] (0 + 0 + 1)"
    by (simp add: mem_of_list_def word_sle_eq)
  moreover have "(0::int) \<in> {0..<50 - 1}" by simp
  ultimately show ?thesis unfolding nondecreasing_def by blast
qed

theorem sorting_workload_sorted_status_witness:
  "nondecreasing (fst (bubblesort_main (mem_of_list [3, 1, 2, 1]) 0)) 0 50 \<and>
   fst (bubblesort_main (mem_of_list [3, 1, 2, 1]) 0) 7 \<le>s
     fst (bubblesort_main (mem_of_list [3, 1, 2, 1]) 0) 8 \<and>
   stores_to (snd (bubblesort_main (mem_of_list [3, 1, 2, 1]) 0)) 0x104 = [0x0F] \<and>
   stores_to (bubblesort_signal (mem_of_list [2, 1]) 0) 0x104 = [0x01]"
proof -
  let ?f = "fst (bubblesort_main (mem_of_list [3, 1, 2, 1]) 0)"
  note t = sorting_workload_sorted_status [of "mem_of_list [3, 1, 2, 1]" 0 "mem_of_list [2, 1]"]
  from t have "\<forall>i\<in>{0..48}. ?f i \<le>s ?f (i + 1)" by simp
  then have "?f 7 \<le>s ?f (7 + 1)" by (rule bspec) simp
  then have "?f 7 \<le>s ?f 8" by simp
  with t descent_not_nondecreasing show ?thesis by simp
qed

text \<open>
  C3, as stated, fails for the sorting workload: its \<open>main\<close> stores nothing to
  address 0x4, so the two signalling stores do not follow a store of a result.
\<close>

theorem sorting_workload_no_result_store:
  "\<not> completion_protocol (snd (bubblesort_main (mem_of_list [3, 1, 2, 1]) 0))"
  by (simp add: bubblesort_main_trace completion_protocol_def result_before_signals_def
      writes_at_2)

subsection \<open>Stores that C leaves unordered\<close>

lemma reordered_all_volatile:
  assumes "reordered p tr" and "\<forall>e\<in>set p. qual e = Volatile"
  shows "tr = p"
  using assms
proof (induction rule: reordered.induct)
  case (source_order p)
  show ?case by simp
next
  case (exchange p xs e f ys)
  then have "xs @ e # f # ys = p" by simp
  then have "e \<in> set p" "f \<in> set p" by auto
  with exchange.prems have "qual e = Volatile" "qual f = Volatile" by auto
  with exchange.hyps(2) show ?case by simp
qed

lemma reordered_stores_to:
  assumes "reordered p tr"
  shows "stores_to tr a = stores_to p a"
  using assms
proof (induction rule: reordered.induct)
  case (source_order p)
  show ?case by simp
next
  case (exchange p xs e f ys)
  have "stores_to (xs @ f # e # ys) a = stores_to (xs @ e # f # ys) a"
    using exchange.hyps(3) by (auto simp: stores_to_def)
  with exchange.IH show ?case by simp
qed

lemma reordered_signals_done:
  "reordered p tr \<Longrightarrow> signals_done p \<Longrightarrow> signals_done tr"
  by (simp add: signals_done_def final_value_def reordered_stores_to)

lemma signals_done_3:
  "signals_done [Store q 4 r, Store Volatile 0x104 0x0F, Store Volatile 0x100 0xCAFEF00D]"
  by (simp add: signals_done_def final_value_def stores_to_def)

text \<open>
  The result of \<open>factorial.c\<close> (and of \<open>fibonacci.c\<close>) is stored through a plain
  \<open>int *\<close>: it may reach memory after the status, and then the stores do not follow the
  protocol.
\<close>

lemma plain_result_store_late:
  "reordered
     [Store Plain 4 120, Store Volatile 0x104 0x0F, Store Volatile 0x100 0xCAFEF00D]
     [Store Volatile 0x104 0x0F, Store Plain 4 120, Store Volatile 0x100 0xCAFEF00D]"
  using exchange [where xs = "[]" and e = "Store Plain 4 120"
      and f = "Store Volatile 0x104 0x0F" and ys = "[Store Volatile 0x100 0xCAFEF00D]",
      OF source_order]
  by simp

lemma plain_result_store_late_protocol:
  "\<not> completion_protocol
       [Store Volatile 0x104 0x0F, Store Plain 4 120, Store Volatile 0x100 0xCAFEF00D]"
  by (simp add: completion_protocol_def result_before_signals_def writes_at_3)

text \<open>
  C3, amended. After \<open>main\<close> returns, every workload has the magic word at 0x100 and
  a status code (0x0F or 0x01) at 0x104, in whatever order its plain stores reach memory.
  In the pattern, aliasing and complex workloads the result is stored to 0x4, through a
  volatile pointer, before both of these stores. The factorial and Fibonacci workloads
  store their result (120 and 6765) to 0x4. The sorting workload stores no result to 0x4:
  its only stores are the status and then the magic word.
\<close>

theorem completion_signals_amended:
  "(\<forall>tr. reordered pattern_main tr \<longrightarrow> completion_protocol tr) \<and>
   (\<forall>tr. reordered aliasing_main tr \<longrightarrow> completion_protocol tr) \<and>
   (\<forall>tr. reordered complex_main tr \<longrightarrow> completion_protocol tr) \<and>
   (\<exists>p. factorial_main = Some p \<and>
        (\<forall>tr. reordered p tr \<longrightarrow> signals_done tr \<and> stores_to tr 4 = [120])) \<and>
   (\<forall>tr. reordered fibonacci_main tr \<longrightarrow> signals_done tr \<and> stores_to tr 4 = [6765]) \<and>
   (\<forall>tr. reordered (snd (bubblesort_main m data)) tr \<longrightarrow>
        signals_done tr \<and> writes_at tr 4 = [] \<and> map addr tr = [0x104, 0x100])"
proof -
  obtain r where c: "complex_main =
      [Store Volatile 4 r, Store Volatile 0x104 0x0F, Store Volatile 0x100 0xCAFEF00D]"
    using complex_main_trace by blast
  have pat: "completion_protocol tr" if "reordered pattern_main tr" for tr
  proof -
    have "tr = pattern_main"
      using that by (rule reordered_all_volatile) (simp add: pattern_main_trace)
    then show ?thesis by (simp add: pattern_main_trace completion_protocol_3)
  qed
  have ali: "completion_protocol tr" if "reordered aliasing_main tr" for tr
  proof -
    have "tr = aliasing_main"
      using that by (rule reordered_all_volatile) (simp add: aliasing_main_trace)
    then show ?thesis by (simp add: aliasing_main_trace completion_protocol_3)
  qed
  have com: "completion_protocol tr" if "reordered complex_main tr" for tr
  proof -
    have "tr = complex_main"
      using that by (rule reordered_all_volatile) (simp add: c)
    then show ?thesis by (simp add: c completion_protocol_3)
  qed
  have fac: "signals_done tr \<and> stores_to tr 4 = [120]"
    if "reordered [Store Plain 4 120, Store Volatile 0x104 0x0F,
          Store Volatile 0x100 0xCAFEF00D] tr" for tr
  proof -
    from that have "stores_to tr 4 = stores_to [Store Plain 4 120, Store Volatile 0x104 0x0F,
          Store Volatile 0x100 0xCAFEF00D] 4"
      by (rule reordered_stores_to)
    moreover have "signals_done tr"
      using that signals_done_3 by (rule reordered_signals_done)
    ultimately show ?thesis by (simp add: stores_to_def)
  qed
  have fib: "signals_done tr \<and> stores_to tr 4 = [6765]" if "reordered fibonacci_main tr" for tr
  proof -
    from that have "stores_to tr 4 = stores_to fibonacci_main 4" by (rule reordered_stores_to)
    moreover have "signals_done tr"
      using that by (rule reordered_signals_done) (simp add: fibonacci_main_def signals_done_3)
    ultimately show ?thesis by (simp add: fibonacci_main_def stores_to_def fib_20)
  qed
  have srt: "signals_done tr \<and> writes_at tr 4 = [] \<and> map addr tr = [0x104, 0x100]"
    if "reordered (snd (bubblesort_main m data)) tr" for tr
  proof -
    have "tr = snd (bubblesort_main m data)"
      using that by (rule reordered_all_volatile) (simp add: bubblesort_main_trace)
    then show ?thesis
      by (simp add: bubblesort_main_trace writes_at_2 signals_done_def final_value_def
          stores_to_def)
  qed
  from pat ali com fac fib srt show ?thesis
    by (simp add: factorial_main_trace)
qed

theorem completion_signals_amended_witness:
  "reordered pattern_main pattern_main \<and> completion_protocol pattern_main \<and>
   reordered aliasing_main aliasing_main \<and> completion_protocol aliasing_main \<and>
   reordered complex_main complex_main \<and> completion_protocol complex_main \<and>
   factorial_main =
     Some [Store Plain 4 120, Store Volatile 0x104 0x0F, Store Volatile 0x100 0xCAFEF00D] \<and>
   reordered
     [Store Plain 4 120, Store Volatile 0x104 0x0F, Store Volatile 0x100 0xCAFEF00D]
     [Store Volatile 0x104 0x0F, Store Plain 4 120, Store Volatile 0x100 0xCAFEF00D] \<and>
   signals_done
     [Store Volatile 0x104 0x0F, Store Plain 4 120, Store Volatile 0x100 0xCAFEF00D] \<and>
   stores_to
     [Store Volatile 0x104 0x0F, Store Plain 4 120, Store Volatile 0x100 0xCAFEF00D] 4 = [120] \<and>
   reordered fibonacci_main fibonacci_main \<and> signals_done fibonacci_main \<and>
   stores_to fibonacci_main 4 = [6765] \<and>
   reordered (snd (bubblesort_main (mem_of_list [3, 1, 2, 1]) 0))
     (snd (bubblesort_main (mem_of_list [3, 1, 2, 1]) 0)) \<and>
   signals_done (snd (bubblesort_main (mem_of_list [3, 1, 2, 1]) 0)) \<and>
   writes_at (snd (bubblesort_main (mem_of_list [3, 1, 2, 1]) 0)) 4 = [] \<and>
   map addr (snd (bubblesort_main (mem_of_list [3, 1, 2, 1]) 0)) = [0x104, 0x100]"
proof -
  note t = completion_signals_amended [of "mem_of_list [3, 1, 2, 1]" 0]
  let ?p = "[Store Plain 4 120, Store Volatile 0x104 0x0F, Store Volatile 0x100 0xCAFEF00D]"
  from t obtain p where p: "factorial_main = Some p"
    and f: "\<forall>tr. reordered p tr \<longrightarrow> signals_done tr \<and> stores_to tr 4 = [120]"
    by blast
  from p have "p = ?p" by (simp add: factorial_main_trace)
  with f plain_result_store_late
  have late: "signals_done
       [Store Volatile 0x104 0x0F, Store Plain 4 120, Store Volatile 0x100 0xCAFEF00D] \<and>
     stores_to
       [Store Volatile 0x104 0x0F, Store Plain 4 120, Store Volatile 0x100 0xCAFEF00D] 4 = [120]"
    by blast
  from t have "completion_protocol pattern_main" "completion_protocol aliasing_main"
    "completion_protocol complex_main"
    "signals_done fibonacci_main \<and> stores_to fibonacci_main 4 = [6765]"
    "signals_done (snd (bubblesort_main (mem_of_list [3, 1, 2, 1]) 0)) \<and>
     writes_at (snd (bubblesort_main (mem_of_list [3, 1, 2, 1]) 0)) 4 = [] \<and>
     map addr (snd (bubblesort_main (mem_of_list [3, 1, 2, 1]) 0)) = [0x104, 0x100]"
    by (blast intro: source_order)+
  with late plain_result_store_late show ?thesis
    by (simp add: source_order factorial_main_trace)
qed

text \<open>
  C8. The factorial, Fibonacci, pattern, aliasing and complex workloads store 0x0F to
  0x104 and nothing else. The sorting workload alone chooses its status: 0x0F if
  \<open>verify\<close> returns non-zero, and 0x01 otherwise.
\<close>

theorem status_codes:
  "map_option (\<lambda>tr. stores_to tr 0x104) factorial_main = Some [0x0F] \<and>
   stores_to fibonacci_main 0x104 = [0x0F] \<and>
   stores_to pattern_main 0x104 = [0x0F] \<and>
   stores_to aliasing_main 0x104 = [0x0F] \<and>
   stores_to complex_main 0x104 = [0x0F] \<and>
   stores_to (bubblesort_signal m data) 0x104 =
     [if verify m data SIZE \<noteq> 0 then 0x0F else 0x01]"
proof -
  obtain r where c: "complex_main =
      [Store Volatile 4 r, Store Volatile 0x104 0x0F, Store Volatile 0x100 0xCAFEF00D]"
    using complex_main_trace by blast
  show ?thesis
    unfolding c factorial_main_trace fibonacci_main_def pattern_main_trace aliasing_main_trace
    by (simp add: stores_to_def bubblesort_signal_def)
qed

theorem status_codes_witness:
  "map_option (\<lambda>tr. stores_to tr 0x104) factorial_main = Some [0x0F] \<and>
   stores_to fibonacci_main 0x104 = [0x0F] \<and>
   stores_to pattern_main 0x104 = [0x0F] \<and>
   stores_to aliasing_main 0x104 = [0x0F] \<and>
   stores_to complex_main 0x104 = [0x0F] \<and>
   stores_to (bubblesort_signal (mem_of_list [2, 1]) 0) 0x104 = [0x01] \<and>
   stores_to (bubblesort_signal (mem_of_list []) 0) 0x104 = [0x0F]"
proof -
  have "nondecreasing (mem_of_list []) 0 50"
    unfolding nondecreasing_def
  proof
    fix i :: int
    show "mem_of_list [] (0 + i) \<le>s mem_of_list [] (0 + i + 1)"
      by (simp add: mem_of_list_def word_sle_eq)
  qed
  then have up: "verify (mem_of_list []) 0 SIZE = 1"
    by (simp add: verify_nondecreasing SIZE_def)
  have down: "verify (mem_of_list [2, 1]) 0 SIZE = 0"
    using descent_not_nondecreasing by (simp add: verify_nondecreasing SIZE_def)
  show ?thesis
    using status_codes [of "mem_of_list [2, 1]" 0] status_codes [of "mem_of_list []" 0]
    by (simp add: up down)
qed

end
